theory Spec2Isabelle
  imports Complex_Main "HOL-Library.Log_Nat"
begin

section \<open>Dutchie API utilities: data model\<close>

text \<open>
  The development embeds \<^verbatim>\<open>src/lib/dutchie-utils.ts\<close>. Console logging is not modelled; the
  wall-clock \<^verbatim>\<open>duration\<close> field of the aggregate is left out, since it depends on real time.

  A JavaScript \<^verbatim>\<open>number\<close> is an IEEE-754 binary64 value. A finite value carries its exact
  rational value; the sign of zero is not modelled (both zeros are \<open>Num 0\<close>, they compare equal
  in the source as well).
\<close>

datatype number = Num rat | PosInf | NegInf | NaN

text \<open>
  A thrown error object: its class and its \<^verbatim>\<open>message\<close>. The source constructs \<^verbatim>\<open>Error\<close>
  objects; \<^verbatim>\<open>JSON.parse\<close> throws a \<^verbatim>\<open>SyntaxError\<close>, and reading a property of
  \<^verbatim>\<open>null\<close> or calling what is not a function throws a \<^verbatim>\<open>TypeError\<close>. The messages of the errors
  that the engine raises are worded as V8 words them.
\<close>

datatype js_error =
    Error (message: string)
  | SyntaxError (message: string)
  | TypeError (message: string)

record store =
  store_id :: string
  store_name :: string
  address :: string
  phone :: string

text \<open>
  A variant and a product of the specials query. \<open>None\<close> stands for a JSON \<^verbatim>\<open>null\<close> or an
  absent field. The fields of a product that the source passes on without reading them (brand,
  subcategory, image, description, potencies) are left out.
\<close>

record variant =
  variant_id :: string
  option_label :: string
  priceRec :: "number option"
  specialPriceRec :: "number option"
  quantity :: "number option"

record product =
  product_id :: string
  product_name :: string
  category :: string
  variants :: "variant list option"

record menu =
  menu_products :: "product list option"

record gql_data =
  retailers :: "store list option"
  data_menu :: "menu option"

text \<open>
  An element of a GraphQL error list, as \<^verbatim>\<open>e => e.message\<close> reads it: \<^verbatim>\<open>null\<close>, where reading
  the property throws, or any other value, with the text that \<^verbatim>\<open>join\<close> prints for its
  \<^verbatim>\<open>message\<close> (\<open>None\<close> when the message is undefined or \<^verbatim>\<open>null\<close>).
\<close>

datatype gql_error = NullError | ErrorValue (gql_message: "string option")

text \<open>
  What \<^verbatim>\<open>data.errors\<close> is for a parsed body \<^verbatim>\<open>data\<close> other than \<^verbatim>\<open>null\<close>: absent or falsy
  (\<^verbatim>\<open>null\<close>, \<^verbatim>\<open>false\<close>, \<^verbatim>\<open>0\<close>, the empty string); an array, which is truthy also when it is empty; or
  a truthy value that is not an array (a non-empty string, a non-zero number, \<^verbatim>\<open>true\<close>, an
  object), which has no function \<^verbatim>\<open>map\<close>.
\<close>

datatype errors_field = NoErrors | ErrorList "gql_error list" | NotAnArray

text \<open>
  What \<^verbatim>\<open>JSON.parse\<close> returns, as far as the client reads it: \<^verbatim>\<open>null\<close>, or any other value with
  its \<^verbatim>\<open>errors\<close> and its \<^verbatim>\<open>data\<close> (a boolean, a number, a string and an array have neither).
\<close>

datatype parsed_body = JsonNull | JsonValue errors_field "gql_data option"

text \<open>
  An HTTP response: its status, its body text, and what \<^verbatim>\<open>JSON.parse\<close> makes of the body
  (\<open>Inl msg\<close> when the body is not JSON and the parser throws a \<^verbatim>\<open>SyntaxError\<close> with that
  message). Reading the body text is taken to succeed.
\<close>

record response =
  status :: nat
  text_body :: string
  parsed :: "string + parsed_body"

text \<open>\<^verbatim>\<open>response.ok\<close> of the Fetch API: the status is in the range 200 to 299.\<close>

definition ok :: "response \<Rightarrow> bool" where
  "ok r = (200 \<le> status r \<and> status r \<le> 299)"

text \<open>
  What one call of \<^verbatim>\<open>fetch\<close> with an abort signal does: it resolves with a response, it is
  aborted by the timer (an \<^verbatim>\<open>AbortError\<close>), or it rejects with another error.
\<close>

datatype fetch_outcome = Responded response | Aborted | Failed js_error

datatype dutchie_query = STORES_QUERY | SPECIALS_QUERY

text \<open>
  The upstream endpoint: the outcome of a POST of \<^verbatim>\<open>{query, variables}\<close>. It is a function of
  the request, so equal requests meet equal upstream behaviour.
\<close>

type_synonym network = "dutchie_query \<Rightarrow> (string \<times> string) list \<Rightarrow> fetch_outcome"

definition API_TIMEOUT_MS :: nat where
  "API_TIMEOUT_MS = 10000"

definition CACHE_TTL_SECONDS :: nat where
  "CACHE_TTL_SECONDS = 900"

section \<open>Remote fetch client\<close>

text \<open>Template literals print a non-negative integer in decimal.\<close>

definition digit_char :: "nat \<Rightarrow> char" where
  "digit_char d = ''0123456789'' ! d"

function show_nat :: "nat \<Rightarrow> string" where
  "show_nat n = (if n < 10 then [digit_char n] else show_nat (n div 10) @ [digit_char (n mod 10)])"
  by pat_completeness auto
termination
  by (relation "measure id") auto

declare show_nat.simps [simp del]

text \<open>
  \<^verbatim>\<open>Array.prototype.join\<close>: the elements separated by \<open>sep\<close>; an undefined element prints as
  the empty string.
\<close>

fun js_join :: "string \<Rightarrow> string option list \<Rightarrow> string" where
  "js_join sep [] = []"
| "js_join sep [x] = (case x of None \<Rightarrow> [] | Some s \<Rightarrow> s)"
| "js_join sep (x # y # ys) = (case x of None \<Rightarrow> [] | Some s \<Rightarrow> s) @ sep @ js_join sep (y # ys)"

definition fetchWithTimeout ::
    "network \<Rightarrow> dutchie_query \<Rightarrow> (string \<times> string) list \<Rightarrow> nat \<Rightarrow> js_error + response" where
  "fetchWithTimeout net query variables timeoutMs =
     (case net query variables of
        Responded r \<Rightarrow> Inr r
      | Aborted \<Rightarrow> Inl (Error (''Request timeout after '' @ show_nat timeoutMs @ ''ms''))
      | Failed e \<Rightarrow> Inl e)"

text \<open>
  \<^verbatim>\<open>data.errors.map((e: any) => e.message)\<close>: the messages of the elements, or the
  \<^verbatim>\<open>TypeError\<close> of the first element that is \<^verbatim>\<open>null\<close>.
\<close>

fun error_messages :: "gql_error list \<Rightarrow> js_error + string option list" where
  "error_messages [] = Inr []"
| "error_messages (NullError # es) =
     Inl (TypeError ''Cannot read properties of null (reading 'message')'')"
| "error_messages (ErrorValue m # es) =
     (case error_messages es of Inl e \<Rightarrow> Inl e | Inr ms \<Rightarrow> Inr (m # ms))"

definition fetchFromDutchie ::
    "network \<Rightarrow> dutchie_query \<Rightarrow> (string \<times> string) list \<Rightarrow> nat \<Rightarrow> js_error + gql_data option" where
  "fetchFromDutchie net query variables timeoutMs =
     (case fetchWithTimeout net query variables timeoutMs of
        Inl e \<Rightarrow> Inl e
      | Inr r \<Rightarrow>
          (let responseText = text_body r in
           if \<not> ok r then
             Inl (Error (''API Error: '' @ show_nat (status r) @ '' - '' @ responseText))
           else
             (case parsed r of
                Inl msg \<Rightarrow> Inl (SyntaxError msg)
              | Inr JsonNull \<Rightarrow>
                  Inl (TypeError ''Cannot read properties of null (reading 'errors')'')
              | Inr (JsonValue errs d) \<Rightarrow>
                  (case errs of
                     NoErrors \<Rightarrow> Inr d
                   | NotAnArray \<Rightarrow> Inl (TypeError ''data.errors.map is not a function'')
                   | ErrorList es \<Rightarrow>
                       (case error_messages es of
                          Inl e \<Rightarrow> Inl e
                        | Inr ms \<Rightarrow>
                            Inl (Error (''GraphQL Error: '' @ js_join '', '' ms)))))))"

section \<open>Key-value cache\<close>

text \<open>
  The KV namespace bound as \<^verbatim>\<open>DUTCHIE_CACHE\<close>: the stored entries with their
  \<^verbatim>\<open>expirationTtl\<close>, and for each key whether a \<^verbatim>\<open>get\<close> or a \<^verbatim>\<open>put\<close> throws. Values are kept
  as the typed value that \<^verbatim>\<open>JSON.stringify\<close> and the \<^verbatim>\<open>'json'\<close> read carry; expiry is real time
  and is not modelled. \<open>getKVNamespace(locals)\<close> is the optional namespace passed to each
  operation: \<open>None\<close> when \<^verbatim>\<open>locals?.runtime?.env?.DUTCHIE_CACHE\<close> is undefined.
\<close>

record 'v kv_namespace =
  entries :: "string \<rightharpoonup> ('v \<times> nat)"
  get_throws :: "string \<Rightarrow> js_error option"
  put_throws :: "string \<Rightarrow> js_error option"

definition kv_get :: "'v kv_namespace \<Rightarrow> string \<Rightarrow> js_error + 'v option" where
  "kv_get kv key =
     (case get_throws kv key of
        Some e \<Rightarrow> Inl e
      | None \<Rightarrow> Inr (map_option fst (entries kv key)))"

text \<open>A call \<^verbatim>\<open>kv.put(key, JSON.stringify(value), {expirationTtl})\<close>.\<close>

datatype 'v kv_write = Put string 'v nat

definition kv_put :: "'v kv_namespace \<Rightarrow> 'v kv_write \<Rightarrow> js_error + 'v kv_namespace" where
  "kv_put kv w =
     (case w of Put key v ttl \<Rightarrow>
        (case put_throws kv key of
           Some e \<Rightarrow> Inl e
         | None \<Rightarrow> Inr (kv\<lparr>entries := (entries kv)(key \<mapsto> (v, ttl))\<rparr>)))"

text \<open>
  The block ``try cache first'': a missing namespace, a throwing \<^verbatim>\<open>get\<close> and an absent entry
  all fall through to the API.
\<close>

definition cache_lookup :: "'v kv_namespace option \<Rightarrow> string \<Rightarrow> 'v option" where
  "cache_lookup kv key =
     (case kv of
        None \<Rightarrow> None
      | Some k \<Rightarrow> (case kv_get k key of Inl e \<Rightarrow> None | Inr cached \<Rightarrow> cached))"

text \<open>
  The cache after the puts a call has issued. A \<^verbatim>\<open>put\<close> that throws is caught and logged by
  the caller, and the cache stays as it was.
\<close>

definition kv_commit :: "'v kv_write \<Rightarrow> 'v kv_namespace option \<Rightarrow> 'v kv_namespace option" where
  "kv_commit w kv =
     (case kv of
        None \<Rightarrow> None
      | Some k \<Rightarrow> (case kv_put k w of Inl e \<Rightarrow> Some k | Inr k' \<Rightarrow> Some k'))"

definition kv_commit_all ::
    "'v kv_write list \<Rightarrow> 'v kv_namespace option \<Rightarrow> 'v kv_namespace option" where
  "kv_commit_all ws kv = fold kv_commit ws kv"

section \<open>Cache-aside aggregator\<close>

text \<open>
  An async operation reads the cache when it starts and issues its \<^verbatim>\<open>put\<close> after the upstream
  call; it is suspended in between, and sibling calls of a fan-out run meanwhile. Each operation
  therefore returns its settled value (\<open>Inl\<close> a rejection) together with the \<^verbatim>\<open>put\<close> it issued,
  if any; \<open>kv_commit\<close> applies it.
\<close>

definition fetchDutchieStores ::
    "store list kv_namespace option \<Rightarrow> network \<Rightarrow>
       (js_error + store list) \<times> store list kv_write option" where
  "fetchDutchieStores kv net =
     (let cacheKey = ''dutchie:stores:all'' in
      case cache_lookup kv cacheKey of
        Some cached \<Rightarrow> (Inr cached, None)
      | None \<Rightarrow>
          (case fetchFromDutchie net STORES_QUERY [] API_TIMEOUT_MS of
             Inl error \<Rightarrow> (Inr [], None)
           | Inr data \<Rightarrow>
               (let stores = (case Option.bind data retailers of Some rs \<Rightarrow> rs | None \<Rightarrow> []) in
                (Inr stores,
                 if kv \<noteq> None \<and> length stores > 0
                 then Some (Put cacheKey stores CACHE_TTL_SECONDS) else None))))"

text \<open>Truthiness of a nullable number: \<^verbatim>\<open>null\<close>, \<^verbatim>\<open>0\<close> and \<^verbatim>\<open>NaN\<close> are falsy.\<close>

fun truthy :: "number option \<Rightarrow> bool" where
  "truthy None = False"
| "truthy (Some (Num x)) = (x \<noteq> 0)"
| "truthy (Some NaN) = False"
| "truthy (Some PosInf) = True"
| "truthy (Some NegInf) = True"

text \<open>
  The filter callback
  \<^verbatim>\<open>product.variants?.some(v => v.specialPriceRec && v.specialPriceRec !== v.priceRec)\<close>.
  The left operand is truthy, hence an ordinary number, so \<^verbatim>\<open>!==\<close> is inequality of values.
\<close>

definition variant_on_special :: "variant \<Rightarrow> bool" where
  "variant_on_special v = (truthy (specialPriceRec v) \<and> specialPriceRec v \<noteq> priceRec v)"

definition has_special :: "product \<Rightarrow> bool" where
  "has_special p =
     (case variants p of
        None \<Rightarrow> False
      | Some vs \<Rightarrow> list_ex variant_on_special vs)"

definition fetchStoreSpecials ::
    "product list kv_namespace option \<Rightarrow> network \<Rightarrow> string \<Rightarrow> string \<Rightarrow>
       (js_error + product list) \<times> product list kv_write option" where
  "fetchStoreSpecials kv net storeId storeName =
     (let cacheKey = ''dutchie:specials:'' @ storeId in
      case cache_lookup kv cacheKey of
        Some cached \<Rightarrow> (Inr cached, None)
      | None \<Rightarrow>
          (case fetchFromDutchie net SPECIALS_QUERY [(''retailerId'', storeId)] API_TIMEOUT_MS of
             Inl error \<Rightarrow> (Inr [], None)
           | Inr specialsData \<Rightarrow>
               (case Option.bind (Option.bind specialsData data_menu) menu_products of
                  Some products \<Rightarrow>
                    (let specialProducts = filter has_special products in
                     (Inr specialProducts,
                      if kv \<noteq> None
                      then Some (Put cacheKey specialProducts CACHE_TTL_SECONDS) else None))
                | None \<Rightarrow> (Inr [], None))))"

text \<open>An entry of the array \<^verbatim>\<open>Promise.allSettled\<close> resolves with.\<close>

record settled_value =
  sv_store :: store
  sv_products :: "product list"

datatype settled = Fulfilled settled_value | Rejected js_error

definition settle :: "store \<Rightarrow> js_error + product list \<Rightarrow> settled" where
  "settle store r =
     (case r of
        Inl reason \<Rightarrow> Rejected reason
      | Inr products \<Rightarrow> Fulfilled \<lparr>sv_store = store, sv_products = products\<rparr>)"

record store_specials =
  store :: store
  products :: "product list"
  specialCount :: nat

record aggregate_result =
  storeSpecials :: "store_specials list"
  totalSpecials :: nat
  errors :: "string list"

text \<open>
  The loop \<^verbatim>\<open>for (let i = 0; i < results.length; i++)\<close> over the settled results. It reads
  \<^verbatim>\<open>stores[i]\<close>; in \<open>fetchMultipleStoreSpecials\<close> the two arrays have the same length.
\<close>

function processResults ::
    "store list \<Rightarrow> settled list \<Rightarrow> nat \<Rightarrow> aggregate_result \<Rightarrow> aggregate_result" where
  "processResults stores results i acc =
     (if i < length results then
        (let result = results ! i; store = stores ! i in
         processResults stores results (i + 1)
           (case result of
              Fulfilled v \<Rightarrow>
                (let products = sv_products v in
                 if length products > 0 then
                   acc\<lparr>storeSpecials := storeSpecials acc @
                         [\<lparr>store = store, products = products, specialCount = length products\<rparr>],
                       totalSpecials := totalSpecials acc + length products\<rparr>
                 else acc)
            | Rejected reason \<Rightarrow>
                acc\<lparr>errors := errors acc @
                      [store_name store @ '': '' @
                         (if message reason = [] then ''Unknown error'' else message reason)]\<rparr>))
      else acc)"
  by pat_completeness auto
termination
  by (relation "measure (\<lambda>(stores, results, i, acc). length results - i)") auto

declare processResults.simps [simp del]

text \<open>The accumulators before the loop: two empty arrays and a zero count.\<close>

definition init_result :: aggregate_result where
  "init_result = \<lparr>storeSpecials = [], totalSpecials = 0, errors = []\<rparr>"

text \<open>
  The fan-out \<^verbatim>\<open>stores.map(store => fetchStoreSpecials(...).then(...))\<close>: every per-store call
  starts before any of them resumes, so each reads the cache as it is when the fan-out starts.
\<close>

definition storeTasks ::
    "product list kv_namespace option \<Rightarrow> network \<Rightarrow> store list \<Rightarrow>
       ((js_error + product list) \<times> product list kv_write option) list" where
  "storeTasks kv net stores =
     map (\<lambda>store. fetchStoreSpecials kv net (store_id store) (store_name store)) stores"

text \<open>\<^verbatim>\<open>Promise.allSettled\<close>: one settled entry per task, in the order of the input.\<close>

definition allSettled ::
    "store list \<Rightarrow> ((js_error + product list) \<times> product list kv_write option) list \<Rightarrow>
       settled list" where
  "allSettled stores tasks = map2 (\<lambda>store task. settle store (fst task)) stores tasks"

text \<open>The result is the aggregate and the puts the calls issued, in input order.\<close>

definition fetchMultipleStoreSpecials ::
    "product list kv_namespace option \<Rightarrow> network \<Rightarrow> store list \<Rightarrow>
       aggregate_result \<times> product list kv_write list" where
  "fetchMultipleStoreSpecials kv net stores =
     (let tasks = storeTasks kv net stores;
          results = allSettled stores tasks
      in (processResults stores results 0 init_result, List.map_filter snd tasks))"

text \<open>
  The loop \<^verbatim>\<open>for (let i = 0; i < stores.length; i += batchSize)\<close>. With \<open>batchSize = 0\<close> and a
  non-empty input it never ends: not returning is the value \<open>None\<close>. Each batch runs on the
  cache the batches before it have left.
\<close>

partial_function (option) batchLoop ::
    "network \<Rightarrow> store list \<Rightarrow> nat \<Rightarrow> nat \<Rightarrow> product list kv_namespace option \<Rightarrow>
       aggregate_result \<Rightarrow> (aggregate_result \<times> product list kv_namespace option) option" where
  "batchLoop net stores batchSize i kv acc =
     (if i < length stores then
        (let batch = take batchSize (drop i stores);
             r = fetchMultipleStoreSpecials kv net batch
         in batchLoop net stores batchSize (i + batchSize) (kv_commit_all (snd r) kv)
              (acc\<lparr>storeSpecials := storeSpecials acc @ storeSpecials (fst r),
                   totalSpecials := totalSpecials acc + totalSpecials (fst r),
                   errors := errors acc @ errors (fst r)\<rparr>))
      else Some (acc, kv))"

definition fetchStoreSpecialsInBatches ::
    "product list kv_namespace option \<Rightarrow> network \<Rightarrow> store list \<Rightarrow> nat \<Rightarrow>
       (aggregate_result \<times> product list kv_namespace option) option" where
  "fetchStoreSpecialsInBatches kv net stores batchSize =
     batchLoop net stores batchSize 0 kv init_result"

section \<open>What one store contributes to the aggregate\<close>

text \<open>
  The body of the processing loop, read per store: the \<open>storeSpecials\<close> entries and the
  \<open>errors\<close> lines that the pair of a store and its settled result adds.
\<close>

fun specials_of :: "store \<times> settled \<Rightarrow> store_specials list" where
  "specials_of (s, Fulfilled v) =
     (if length (sv_products v) > 0
      then [\<lparr>store = s, products = sv_products v, specialCount = length (sv_products v)\<rparr>]
      else [])"
| "specials_of (s, Rejected reason) = []"

fun errors_of :: "store \<times> settled \<Rightarrow> string list" where
  "errors_of (s, Fulfilled v) = []"
| "errors_of (s, Rejected reason) =
     [store_name s @ '': '' @ (if message reason = [] then ''Unknown error'' else message reason)]"

text \<open>The settled results of the fan-out over \<open>stores\<close>.\<close>

definition settledResults ::
    "product list kv_namespace option \<Rightarrow> network \<Rightarrow> store list \<Rightarrow> settled list" where
  "settledResults kv net stores = allSettled stores (storeTasks kv net stores)"

text \<open>What the batch loop does to its three accumulators with the result of one batch.\<close>

definition combine :: "aggregate_result \<Rightarrow> aggregate_result \<Rightarrow> aggregate_result" where
  "combine a b =
     a\<lparr>storeSpecials := storeSpecials a @ storeSpecials b,
       totalSpecials := totalSpecials a + totalSpecials b,
       errors := errors a @ errors b\<rparr>"

text \<open>
  The API branch of \<open>fetchStoreSpecials\<close> on its own: the filtered product list when the
  upstream call succeeds with a menu, \<open>None\<close> when it fails or carries no menu.
\<close>

definition api_result :: "network \<Rightarrow> string \<Rightarrow> product list option" where
  "api_result net storeId =
     (case fetchFromDutchie net SPECIALS_QUERY [(''retailerId'', storeId)] API_TIMEOUT_MS of
        Inl error \<Rightarrow> None
      | Inr specialsData \<Rightarrow>
          map_option (filter has_special)
            (Option.bind (Option.bind specialsData data_menu) menu_products))"

text \<open>The product list a call for \<open>storeId\<close> resolves with on the cache \<open>kv\<close>.\<close>

definition value_of :: "product list kv_namespace option \<Rightarrow> network \<Rightarrow> string \<Rightarrow> product list" where
  "value_of kv net storeId =
     (case cache_lookup kv (''dutchie:specials:'' @ storeId) of
        Some cached \<Rightarrow> cached
      | None \<Rightarrow> (case api_result net storeId of None \<Rightarrow> [] | Some sp \<Rightarrow> sp))"

text \<open>Two caches on which every per-store call resolves with the same list.\<close>

definition same_view ::
    "network \<Rightarrow> product list kv_namespace option \<Rightarrow> product list kv_namespace option \<Rightarrow> bool" where
  "same_view net kv kv' = (\<forall>storeId. value_of kv' net storeId = value_of kv net storeId)"

section \<open>The reading of ``on special'' in the glossary\<close>




section \<open>Numbers and \<open>calculateDiscount\<close>\<close>

text \<open>Round to the nearest integer, ties to the even one.\<close>

definition round_half_even :: "rat \<Rightarrow> int" where
  "round_half_even x =
     (let n = \<lfloor>x\<rfloor>; f = x - of_int n in
      if f < 1 / 2 then n
      else if 1 / 2 < f then n + 1
      else if even n then n else n + 1)"

text \<open>The exponent \<open>\<lfloor>log\<^sub>2 x\<rfloor>\<close> of a positive rational.\<close>

definition ilog2 :: "rat \<Rightarrow> int" where
  "ilog2 x =
     (let k = bitlen (fst (quotient_of x)) - bitlen (snd (quotient_of x)) in
      if 2 powi k \<le> x then k else k - 1)"

text \<open>
  The exponent of the unit in the last place of the binary64 format at \<open>x\<close>: 53 significant
  bits, and no exponent below that of the subnormal numbers.
\<close>

definition ulp_exponent :: "rat \<Rightarrow> int" where
  "ulp_exponent x = max (ilog2 \<bar>x\<bar> - 52) (- 1074)"

definition round_to_ulp :: "rat \<Rightarrow> rat" where
  "round_to_ulp x =
     (if x = 0 then 0
      else of_int (round_half_even (x / 2 powi ulp_exponent x)) * 2 powi ulp_exponent x)"

text \<open>Rounding of an exact result to binary64, to nearest, ties to even, with overflow.\<close>

definition round_double :: "rat \<Rightarrow> number" where
  "round_double x =
     (let y = round_to_ulp x in
      if 1024 \<le> ilog2 \<bar>y\<bar> then (if 0 < y then PosInf else NegInf)
      else Num y)"

text \<open>The rationals that are binary64 values.\<close>

definition is_double :: "rat \<Rightarrow> bool" where
  "is_double x = (round_double x = Num x)"

text \<open>
  The arithmetic of numbers: the exact result, rounded; the cases with an infinity or
  \<^verbatim>\<open>NaN\<close> as IEEE-754 has them. A quotient by zero takes the divisor as the positive zero.
\<close>

fun js_sub :: "number \<Rightarrow> number \<Rightarrow> number" where
  "js_sub (Num x) (Num y) = round_double (x - y)"
| "js_sub NaN b = NaN"
| "js_sub a NaN = NaN"
| "js_sub PosInf PosInf = NaN"
| "js_sub NegInf NegInf = NaN"
| "js_sub PosInf b = PosInf"
| "js_sub NegInf b = NegInf"
| "js_sub a PosInf = NegInf"
| "js_sub a NegInf = PosInf"

fun js_mul :: "number \<Rightarrow> number \<Rightarrow> number" where
  "js_mul (Num x) (Num y) = round_double (x * y)"
| "js_mul NaN b = NaN"
| "js_mul a NaN = NaN"
| "js_mul (Num x) PosInf = (if x = 0 then NaN else if 0 < x then PosInf else NegInf)"
| "js_mul (Num x) NegInf = (if x = 0 then NaN else if 0 < x then NegInf else PosInf)"
| "js_mul PosInf (Num y) = (if y = 0 then NaN else if 0 < y then PosInf else NegInf)"
| "js_mul NegInf (Num y) = (if y = 0 then NaN else if 0 < y then NegInf else PosInf)"
| "js_mul PosInf PosInf = PosInf"
| "js_mul NegInf NegInf = PosInf"
| "js_mul PosInf NegInf = NegInf"
| "js_mul NegInf PosInf = NegInf"

fun js_div :: "number \<Rightarrow> number \<Rightarrow> number" where
  "js_div (Num x) (Num y) =
     (if y = 0 then (if x = 0 then NaN else if 0 < x then PosInf else NegInf)
      else round_double (x / y))"
| "js_div NaN b = NaN"
| "js_div a NaN = NaN"
| "js_div (Num x) PosInf = Num 0"
| "js_div (Num x) NegInf = Num 0"
| "js_div PosInf (Num y) = (if 0 \<le> y then PosInf else NegInf)"
| "js_div NegInf (Num y) = (if 0 \<le> y then NegInf else PosInf)"
| "js_div PosInf b = NaN"
| "js_div NegInf b = NaN"

text \<open>The comparison \<^verbatim>\<open>a >= b\<close>; it is false when an operand is \<^verbatim>\<open>NaN\<close>.\<close>

fun js_ge :: "number \<Rightarrow> number \<Rightarrow> bool" where
  "js_ge (Num x) (Num y) = (y \<le> x)"
| "js_ge NaN b = False"
| "js_ge a NaN = False"
| "js_ge PosInf b = True"
| "js_ge a NegInf = True"
| "js_ge a PosInf = False"
| "js_ge NegInf b = False"

text \<open>\<^verbatim>\<open>!x\<close> on a number: zero and \<^verbatim>\<open>NaN\<close> are falsy.\<close>

fun falsy :: "number \<Rightarrow> bool" where
  "falsy (Num x) = (x = 0)"
| "falsy NaN = True"
| "falsy PosInf = False"
| "falsy NegInf = False"

text \<open>
  \<^verbatim>\<open>Math.round\<close>: the nearest integer, a tie going to the larger one; the result is exact.
\<close>

fun Math_round :: "number \<Rightarrow> number" where
  "Math_round (Num x) = Num (of_int \<lfloor>x + 1 / 2\<rfloor>)"
| "Math_round PosInf = PosInf"
| "Math_round NegInf = NegInf"
| "Math_round NaN = NaN"

definition calculateDiscount :: "number \<Rightarrow> number \<Rightarrow> number" where
  "calculateDiscount regular special =
     (if falsy regular \<or> falsy special \<or> js_ge special regular then Num 0
      else Math_round (js_mul (js_div (js_sub regular special) regular) (Num 100)))"


section \<open>Concrete inputs\<close>

text \<open>
  Stores, menus and upstream behaviours used to evaluate the operations. The body text of a
  successful response is abbreviated: the source reads it only through \<^verbatim>\<open>JSON.parse\<close>.
\<close>

definition empty_cache :: "'v kv_namespace" where
  "empty_cache = \<lparr>entries = Map.empty, get_throws = (\<lambda>key. None), put_throws = (\<lambda>key. None)\<rparr>"

definition variant_full_price :: variant where
  "variant_full_price =
     \<lparr>variant_id = ''v-full'', option_label = ''1g'', priceRec = Some (Num 1000),
      specialPriceRec = None, quantity = Some (Num 5)\<rparr>"

definition variant_discounted :: variant where
  "variant_discounted =
     \<lparr>variant_id = ''v-disc'', option_label = ''1g'', priceRec = Some (Num 1000),
      specialPriceRec = Some (Num 750), quantity = Some (Num 5)\<rparr>"

definition variant_marked_up :: variant where
  "variant_marked_up =
     \<lparr>variant_id = ''v-up'', option_label = ''1g'', priceRec = Some (Num 1000),
      specialPriceRec = Some (Num 1200), quantity = Some (Num 5)\<rparr>"

definition variant_zero_special :: variant where
  "variant_zero_special =
     \<lparr>variant_id = ''v-zero'', option_label = ''1g'', priceRec = Some (Num 1000),
      specialPriceRec = Some (Num 0), quantity = Some (Num 5)\<rparr>"

definition product_of_variants :: "string \<Rightarrow> variant list \<Rightarrow> product" where
  "product_of_variants pid vs =
     \<lparr>product_id = pid, product_name = pid, category = ''FLOWER'', variants = Some vs\<rparr>"

definition menu_response :: "product list \<Rightarrow> response" where
  "menu_response ps =
     \<lparr>status = 200, text_body = ''(json)'',
      parsed = Inr (JsonValue NoErrors
                      (Some \<lparr>retailers = None,
                             data_menu = Some \<lparr>menu_products = Some ps\<rparr>\<rparr>))\<rparr>"

definition store_A :: store where
  "store_A = \<lparr>store_id = ''a'', store_name = ''A'', address = ''1 Main St'', phone = ''555-0001''\<rparr>"

definition store_B :: store where
  "store_B = \<lparr>store_id = ''b'', store_name = ''B'', address = ''2 Main St'', phone = ''555-0002''\<rparr>"

definition store_C :: store where
  "store_C = \<lparr>store_id = ''c'', store_name = ''C'', address = ''3 Main St'', phone = ''555-0003''\<rparr>"

definition products_A :: "product list" where
  "products_A =
     [product_of_variants ''p1'' [variant_discounted],
      product_of_variants ''p2'' [variant_full_price, variant_discounted]]"

text \<open>
  Store A answers with two products on special, the call for store B is aborted by the timer,
  every other store answers with one product at full price.
\<close>

definition scenario_network :: network where
  "scenario_network query variables =
     (if variables = [(''retailerId'', ''a'')] then Responded (menu_response products_A)
      else if variables = [(''retailerId'', ''b'')] then Aborted
      else Responded (menu_response [product_of_variants ''p3'' [variant_full_price]]))"

definition products_mixed :: "product list" where
  "products_mixed =
     [product_of_variants ''p1'' [variant_discounted],
      product_of_variants ''p3'' [variant_full_price],
      product_of_variants ''p4'' [variant_marked_up],
      product_of_variants ''p5'' [variant_zero_special]]"

definition mixed_network :: network where
  "mixed_network query variables = Responded (menu_response products_mixed)"



definition unavailable_response :: response where
  "unavailable_response =
     \<lparr>status = 503, text_body = ''Service Unavailable'',
      parsed = Inl ''Unexpected token S in JSON at position 0''\<rparr>"

definition unavailable_network :: network where
  "unavailable_network query variables = Responded unavailable_response"










definition numbered_store :: "nat \<Rightarrow> store" where
  "numbered_store n =
     \<lparr>store_id = show_nat n, store_name = ''Store '' @ show_nat n, address = [], phone = []\<rparr>"

definition stores25 :: "store list" where
  "stores25 = store_A # store_B # map numbered_store [0..<23]"

section \<open>Remote fetch client: properties\<close>

lemma show_nat_timeout: "show_nat API_TIMEOUT_MS = ''10000''"
  by (simp add: show_nat.simps digit_char_def API_TIMEOUT_MS_def)

lemma show_nat_503: "show_nat 503 = ''503''"
  by (simp add: show_nat.simps digit_char_def)

lemma fetchFromDutchie_timeout:
  "net query variables = Aborted \<Longrightarrow>
   fetchFromDutchie net query variables timeoutMs =
     Inl (Error (''Request timeout after '' @ show_nat timeoutMs @ ''ms''))"
  by (simp add: fetchFromDutchie_def fetchWithTimeout_def)






section \<open>Single-store fetch: properties\<close>

lemma fetchStoreSpecials_alt:
  "fetchStoreSpecials kv net storeId storeName =
     (case cache_lookup kv (''dutchie:specials:'' @ storeId) of
        Some cached \<Rightarrow> (Inr cached, None)
      | None \<Rightarrow>
          (case api_result net storeId of
             None \<Rightarrow> (Inr [], None)
           | Some sp \<Rightarrow>
               (Inr sp,
                if kv \<noteq> None
                then Some (Put (''dutchie:specials:'' @ storeId) sp CACHE_TTL_SECONDS)
                else None)))"
  by (simp add: fetchStoreSpecials_def api_result_def Let_def
      split: option.splits sum.splits)

lemma fst_fetchStoreSpecials:
  "fst (fetchStoreSpecials kv net storeId storeName) = Inr (value_of kv net storeId)"
  by (simp add: fetchStoreSpecials_alt value_of_def split: option.splits)

lemma fst_fetchDutchieStores: "\<exists>stores. fst (fetchDutchieStores kv net) = Inr stores"
  by (simp add: fetchDutchieStores_def Let_def split: option.splits sum.splits)


lemma has_special_examples:
  "has_special (product_of_variants ''p1'' [variant_discounted])"
  "has_special (product_of_variants ''p2'' [variant_full_price, variant_discounted])"
  "\<not> has_special (product_of_variants ''p3'' [variant_full_price])"
  "has_special (product_of_variants ''p4'' [variant_marked_up])"
  "\<not> has_special (product_of_variants ''p5'' [variant_zero_special])"
  by (simp_all add: has_special_def product_of_variants_def variant_on_special_def
      variant_discounted_def variant_full_price_def variant_marked_up_def
      variant_zero_special_def)

lemma api_result_mixed:
  "api_result mixed_network storeId =
     Some [product_of_variants ''p1'' [variant_discounted],
           product_of_variants ''p4'' [variant_marked_up]]"
  by (simp add: api_result_def fetchFromDutchie_def fetchWithTimeout_def mixed_network_def
      menu_response_def ok_def products_mixed_def has_special_examples)

lemma api_result_scenario:
  "api_result scenario_network ''a'' = Some products_A"
  "api_result scenario_network ''b'' = None"
  "api_result scenario_network ''c'' = Some []"
  by (simp_all add: api_result_def fetchFromDutchie_def fetchWithTimeout_def
      scenario_network_def menu_response_def ok_def products_A_def has_special_examples)

lemma cache_lookup_empty [simp]: "cache_lookup (Some empty_cache) key = None"
  by (simp add: cache_lookup_def kv_get_def empty_cache_def)

lemma cache_lookup_None [simp]: "cache_lookup None key = None"
  by (simp add: cache_lookup_def)




text \<open>
  Claim C5: when the upstream call fails (a timeout, an HTTP error, a GraphQL error, or any other
  rejection of \<open>fetchFromDutchie\<close>), \<open>fetchDutchieStores\<close> and \<open>fetchStoreSpecials\<close> each resolve
  with the empty sequence and issue no cache write; and neither of them ever rejects. The upstream
  call takes place when the cache gives no entry.
\<close>

theorem upstream_failure_returns_empty:
  "(cache_lookup kv (''dutchie:specials:'' @ storeId) = None \<longrightarrow>
      fetchFromDutchie net SPECIALS_QUERY [(''retailerId'', storeId)] API_TIMEOUT_MS = Inl e \<longrightarrow>
      fetchStoreSpecials kv net storeId storeName = (Inr [], None))
   \<and> (cache_lookup kvs ''dutchie:stores:all'' = None \<longrightarrow>
      fetchFromDutchie net STORES_QUERY [] API_TIMEOUT_MS = Inl e' \<longrightarrow>
      fetchDutchieStores kvs net = (Inr [], None))
   \<and> (\<exists>products. fst (fetchStoreSpecials kv net storeId storeName) = Inr products)
   \<and> (\<exists>stores. fst (fetchDutchieStores kvs net) = Inr stores)"
proof -
  have "cache_lookup kv (''dutchie:specials:'' @ storeId) = None \<longrightarrow>
      fetchFromDutchie net SPECIALS_QUERY [(''retailerId'', storeId)] API_TIMEOUT_MS = Inl e \<longrightarrow>
      fetchStoreSpecials kv net storeId storeName = (Inr [], None)"
    by (simp add: fetchStoreSpecials_def)
  moreover have "cache_lookup kvs ''dutchie:stores:all'' = None \<longrightarrow>
      fetchFromDutchie net STORES_QUERY [] API_TIMEOUT_MS = Inl e' \<longrightarrow>
      fetchDutchieStores kvs net = (Inr [], None)"
    by (simp add: fetchDutchieStores_def)
  moreover have "\<exists>products. fst (fetchStoreSpecials kv net storeId storeName) = Inr products"
    by (simp add: fst_fetchStoreSpecials)
  moreover have "\<exists>stores. fst (fetchDutchieStores kvs net) = Inr stores"
    by (rule fst_fetchDutchieStores)
  ultimately show ?thesis by blast
qed

theorem upstream_failure_returns_empty_witness:
  "cache_lookup (Some empty_cache) (''dutchie:specials:'' @ ''b'') = None
   \<and> fetchFromDutchie scenario_network SPECIALS_QUERY [(''retailerId'', ''b'')] API_TIMEOUT_MS
       = Inl (Error ''Request timeout after 10000ms'')
   \<and> fetchStoreSpecials (Some empty_cache) scenario_network ''b'' ''B'' = (Inr [], None)
   \<and> cache_lookup (Some empty_cache) ''dutchie:stores:all'' = None
   \<and> fetchFromDutchie unavailable_network STORES_QUERY [] API_TIMEOUT_MS
       = Inl (Error ''API Error: 503 - Service Unavailable'')
   \<and> fetchDutchieStores (Some empty_cache) unavailable_network = (Inr [], None)"
proof -
  have timeout: "fetchFromDutchie scenario_network SPECIALS_QUERY [(''retailerId'', ''b'')]
      API_TIMEOUT_MS = Inl (Error ''Request timeout after 10000ms'')"
    by (simp add: fetchFromDutchie_timeout scenario_network_def show_nat_timeout)
  have down: "fetchFromDutchie unavailable_network STORES_QUERY [] API_TIMEOUT_MS
      = Inl (Error ''API Error: 503 - Service Unavailable'')"
    by (simp add: fetchFromDutchie_def fetchWithTimeout_def unavailable_network_def
        unavailable_response_def ok_def show_nat_503)
  show ?thesis
    using upstream_failure_returns_empty
      [of "Some empty_cache" "''b''" scenario_network "Error ''Request timeout after 10000ms''"
        "''B''" "Some empty_cache" "Error ''Unexpected''"]
      upstream_failure_returns_empty
      [of "Some empty_cache" "''b''" unavailable_network "Error ''Unexpected''"
        "''B''" "Some empty_cache" "Error ''API Error: 503 - Service Unavailable''"]
      timeout down
    by simp
qed

text \<open>
  Claim C8 says that \<open>fetchStoreSpecials\<close> writes to the cache only when the filtered result is
  not empty. The source guards the write with \<^verbatim>\<open>if (kv)\<close> alone, where \<open>fetchDutchieStores\<close>
  has \<^verbatim>\<open>if (kv && stores.length > 0)\<close>. With a working, empty cache and an upstream menu
  with no product on special, the call resolves with the empty list and puts the empty list
  under the store's key, and a later read of that key is a hit.
\<close>

theorem empty_specials_are_cached:
  "fetchStoreSpecials (Some empty_cache) scenario_network ''c'' ''C'' =
     (Inr [], Some (Put ''dutchie:specials:c'' [] 900))
   \<and> cache_lookup (kv_commit (Put ''dutchie:specials:c'' [] 900) (Some empty_cache))
       ''dutchie:specials:c'' = Some []"
  by (simp add: fetchStoreSpecials_alt api_result_scenario CACHE_TTL_SECONDS_def
      cache_lookup_def kv_commit_def kv_put_def kv_get_def empty_cache_def)

section \<open>The processing loop\<close>

lemma drop_zip_step:
  assumes "length stores = length results" "i < length results"
  shows "drop i (zip stores results) = (stores ! i, results ! i) # drop (Suc i) (zip stores results)"
  using assms by (simp add: Cons_nth_drop_Suc [symmetric])

lemma processResults_storeSpecials:
  "length stores = length results \<Longrightarrow>
   storeSpecials (processResults stores results i acc) =
     storeSpecials acc @ concat (map specials_of (drop i (zip stores results)))"
proof (induction stores results i acc rule: processResults.induct)
  case (1 stores results i acc)
  show ?case
  proof (cases "i < length results")
    case True
    then show ?thesis
      using 1 by (subst processResults.simps)
        (simp add: drop_zip_step Let_def split: settled.splits)
  next
    case False
    then show ?thesis
      using 1 by (subst processResults.simps) simp
  qed
qed

lemma processResults_errors:
  "length stores = length results \<Longrightarrow>
   errors (processResults stores results i acc) =
     errors acc @ concat (map errors_of (drop i (zip stores results)))"
proof (induction stores results i acc rule: processResults.induct)
  case (1 stores results i acc)
  show ?case
  proof (cases "i < length results")
    case True
    then show ?thesis
      using 1 by (subst processResults.simps)
        (simp add: drop_zip_step Let_def split: settled.splits)
  next
    case False
    then show ?thesis
      using 1 by (subst processResults.simps) simp
  qed
qed

lemma processResults_totalSpecials:
  "length stores = length results \<Longrightarrow>
   totalSpecials (processResults stores results i acc) =
     totalSpecials acc +
       sum_list (map specialCount (concat (map specials_of (drop i (zip stores results)))))"
proof (induction stores results i acc rule: processResults.induct)
  case (1 stores results i acc)
  show ?case
  proof (cases "i < length results")
    case True
    then show ?thesis
      using 1 by (subst processResults.simps)
        (simp add: drop_zip_step Let_def split: settled.splits)
  next
    case False
    then show ?thesis
      using 1 by (subst processResults.simps) simp
  qed
qed

lemma processResults_more:
  "aggregate_result.more (processResults stores results i acc) = aggregate_result.more acc"
proof (induction stores results i acc rule: processResults.induct)
  case (1 stores results i acc)
  show ?case
  proof (cases "i < length results")
    case True
    then show ?thesis
      using 1 by (subst processResults.simps)
        (simp add: Let_def split: settled.splits)
  next
    case False
    then show ?thesis
      by (subst processResults.simps) simp
  qed
qed

lemma length_settledResults [simp]: "length (settledResults kv net stores) = length stores"
  by (simp add: settledResults_def allSettled_def storeTasks_def)

lemma fst_fetchMultipleStoreSpecials:
  "fst (fetchMultipleStoreSpecials kv net stores) =
     processResults stores (settledResults kv net stores) 0 init_result"
  by (simp add: fetchMultipleStoreSpecials_def settledResults_def Let_def)

lemma settledResults_value:
  "settledResults kv net stores =
     map (\<lambda>s. Fulfilled \<lparr>sv_store = s, sv_products = value_of kv net (store_id s)\<rparr>) stores"
  by (induction stores)
    (simp_all add: settledResults_def allSettled_def storeTasks_def settle_def
      fst_fetchStoreSpecials)

lemma storeSpecials_aggregate:
  "storeSpecials (fst (fetchMultipleStoreSpecials kv net stores)) =
     concat (map specials_of (zip stores (settledResults kv net stores)))"
  by (simp add: fst_fetchMultipleStoreSpecials processResults_storeSpecials init_result_def)

lemma errors_aggregate:
  "errors (fst (fetchMultipleStoreSpecials kv net stores)) =
     concat (map errors_of (zip stores (settledResults kv net stores)))"
  by (simp add: fst_fetchMultipleStoreSpecials processResults_errors init_result_def)

lemma totalSpecials_aggregate:
  "totalSpecials (fst (fetchMultipleStoreSpecials kv net stores)) =
     sum_list (map specialCount (storeSpecials (fst (fetchMultipleStoreSpecials kv net stores))))"
  by (simp add: fst_fetchMultipleStoreSpecials processResults_totalSpecials
      processResults_storeSpecials init_result_def)

lemma contribution_at_most_one: "length (specials_of p) + length (errors_of p) \<le> 1"
  by (cases p rule: specials_of.cases) simp_all

lemma length_contributions:
  "length (concat (map specials_of ps)) + length (concat (map errors_of ps)) \<le> length ps"
proof (induction ps)
  case Nil
  show ?case by simp
next
  case (Cons p ps)
  have "length (specials_of p) + length (errors_of p) \<le> 1"
    by (rule contribution_at_most_one)
  with Cons show ?case by simp
qed


lemma scenario_settled:
  "settledResults kv0 scenario_network [store_A, store_B, store_C] =
     [Fulfilled \<lparr>sv_store = store_A, sv_products = value_of kv0 scenario_network ''a''\<rparr>,
      Fulfilled \<lparr>sv_store = store_B, sv_products = value_of kv0 scenario_network ''b''\<rparr>,
      Fulfilled \<lparr>sv_store = store_C, sv_products = value_of kv0 scenario_network ''c''\<rparr>]"
  by (simp add: settledResults_value store_A_def store_B_def store_C_def)

lemma scenario_values:
  "value_of None scenario_network ''a'' = products_A"
  "value_of None scenario_network ''b'' = []"
  "value_of None scenario_network ''c'' = []"
  by (simp_all add: value_of_def api_result_scenario)

lemma length_products_A [simp]: "length products_A = 2"
  by (simp add: products_A_def)

lemma products_A_nonempty [simp]: "products_A \<noteq> []"
  by (simp add: products_A_def)

text \<open>
  No call of \<open>fetchStoreSpecials\<close> rejects, so the fan-out never reaches the branch of the loop
  that records an error.
\<close>

lemma errors_always_empty: "errors (fst (fetchMultipleStoreSpecials kv net stores)) = []"
  by (auto simp: errors_aggregate settledResults_value zip_map2)

section \<open>The aggregate of a fan-out\<close>

text \<open>
  Claim C1 says that a store whose fetch fails contributes one line to \<open>errors\<close>, and that for
  three stores, where A has two specials, B times out and C has none, the aggregate has
  \<open>errors = ["B: Request timeout after 10000ms"]\<close>. In the source \<open>fetchStoreSpecials\<close> catches
  the timeout and resolves with the empty list, so the task of store B is fulfilled and the
  aggregate has no error line: the upstream call for B fails with the timeout message, the
  aggregate holds A with its two specials and the total 2, and \<open>errors\<close> is empty.
\<close>

theorem timed_out_store_adds_no_error_entry:
  "fetchFromDutchie scenario_network SPECIALS_QUERY [(''retailerId'', store_id store_B)]
     API_TIMEOUT_MS = Inl (Error ''Request timeout after 10000ms'')
   \<and> fst (fetchMultipleStoreSpecials None scenario_network [store_A, store_B, store_C]) =
     \<lparr>storeSpecials = [\<lparr>store = store_A, products = products_A, specialCount = 2\<rparr>],
      totalSpecials = 2, errors = []\<rparr>"
proof -
  have "fetchFromDutchie scenario_network SPECIALS_QUERY [(''retailerId'', store_id store_B)]
     API_TIMEOUT_MS = Inl (Error ''Request timeout after 10000ms'')"
    by (simp add: fetchFromDutchie_timeout scenario_network_def store_B_def show_nat_timeout)
  moreover have "fst (fetchMultipleStoreSpecials None scenario_network [store_A, store_B, store_C])
     = \<lparr>storeSpecials = [\<lparr>store = store_A, products = products_A, specialCount = 2\<rparr>],
        totalSpecials = 2, errors = []\<rparr>"
    by (simp add: fst_fetchMultipleStoreSpecials scenario_settled scenario_values
        processResults.simps init_result_def)
  ultimately show ?thesis by simp
qed

text \<open>
  Claim C3: for every input store sequence, the empty one included, the \<open>storeSpecials\<close> of the
  aggregate are the entries and the \<open>errors\<close> are the lines that the stores contribute one by
  one, each store paired with its own settled result; a store contributes at most one item, to
  one of the two lists or to neither; and the two lists together are no longer than the input.
\<close>

theorem each_store_contributes_at_most_once:
  "storeSpecials (fst (fetchMultipleStoreSpecials kv net stores)) =
     concat (map specials_of (zip stores (settledResults kv net stores)))
   \<and> errors (fst (fetchMultipleStoreSpecials kv net stores)) =
     concat (map errors_of (zip stores (settledResults kv net stores)))
   \<and> length (settledResults kv net stores) = length stores
   \<and> (\<forall>p \<in> set (zip stores (settledResults kv net stores)).
         length (specials_of p) + length (errors_of p) \<le> 1)
   \<and> length (storeSpecials (fst (fetchMultipleStoreSpecials kv net stores))) +
       length (errors (fst (fetchMultipleStoreSpecials kv net stores))) \<le> length stores"
proof -
  have "length (concat (map specials_of (zip stores (settledResults kv net stores)))) +
        length (concat (map errors_of (zip stores (settledResults kv net stores))))
          \<le> length (zip stores (settledResults kv net stores))"
    by (rule length_contributions)
  then have bound:
    "length (storeSpecials (fst (fetchMultipleStoreSpecials kv net stores))) +
       length (errors (fst (fetchMultipleStoreSpecials kv net stores))) \<le> length stores"
    by (simp add: storeSpecials_aggregate errors_aggregate)
  have one: "\<forall>p \<in> set (zip stores (settledResults kv net stores)).
         length (specials_of p) + length (errors_of p) \<le> 1"
    using contribution_at_most_one by blast
  show ?thesis
    using bound one storeSpecials_aggregate errors_aggregate length_settledResults by blast
qed


theorem each_store_contributes_at_most_once_witness:
  "(store_A, Fulfilled \<lparr>sv_store = store_A, sv_products = products_A\<rparr>)
     \<in> set (zip [store_A, store_B, store_C]
               (settledResults None scenario_network [store_A, store_B, store_C]))
   \<and> length (specials_of (store_A, Fulfilled \<lparr>sv_store = store_A, sv_products = products_A\<rparr>)) +
       length (errors_of (store_A, Fulfilled \<lparr>sv_store = store_A, sv_products = products_A\<rparr>)) \<le> 1
   \<and> length (storeSpecials
        (fst (fetchMultipleStoreSpecials None scenario_network [store_A, store_B, store_C]))) +
       length (errors
        (fst (fetchMultipleStoreSpecials None scenario_network [store_A, store_B, store_C]))) \<le> 3"
proof -
  have "(store_A, Fulfilled \<lparr>sv_store = store_A, sv_products = products_A\<rparr>)
     \<in> set (zip [store_A, store_B, store_C]
               (settledResults None scenario_network [store_A, store_B, store_C]))"
    by (simp add: scenario_settled scenario_values)
  then show ?thesis
    using each_store_contributes_at_most_once
      [of None scenario_network "[store_A, store_B, store_C]"]
    by auto
qed

lemma stores_of_specials:
  "map store (concat (map specials_of ps)) = map fst (filter (\<lambda>p. specials_of p \<noteq> []) ps)"
proof (induction ps)
  case Nil
  show ?case by simp
next
  case (Cons p ps)
  then show ?case by (cases p rule: specials_of.cases) simp_all
qed


text \<open>
  Claim C9: for every input store sequence, the stores of the \<open>storeSpecials\<close> entries are the
  input stores whose own result is a non-empty success, in the order of the input (the settled
  results are indexed like the input, whatever the order in which the tasks complete), and
  \<open>totalSpecials\<close> is the sum of the \<open>specialCount\<close> fields of the entries.
\<close>

theorem storeSpecials_follow_input_order:
  "map store (storeSpecials (fst (fetchMultipleStoreSpecials kv net stores))) =
     map fst (filter (\<lambda>p. specials_of p \<noteq> []) (zip stores (settledResults kv net stores)))
   \<and> totalSpecials (fst (fetchMultipleStoreSpecials kv net stores)) =
     sum_list (map specialCount (storeSpecials (fst (fetchMultipleStoreSpecials kv net stores))))"
  using totalSpecials_aggregate [of kv net stores]
  by (simp add: storeSpecials_aggregate stores_of_specials)

theorem storeSpecials_follow_input_order_witness:
  "map store (storeSpecials
      (fst (fetchMultipleStoreSpecials None mixed_network [store_C, store_B, store_A]))) =
     [store_C, store_B, store_A]
   \<and> totalSpecials (fst (fetchMultipleStoreSpecials None mixed_network [store_C, store_B, store_A]))
       = 6"
proof -
  have v: "value_of None mixed_network i =
      [product_of_variants ''p1'' [variant_discounted],
       product_of_variants ''p4'' [variant_marked_up]]" for i
    by (simp add: value_of_def api_result_mixed)
  have "settledResults None mixed_network [store_C, store_B, store_A] =
      [Fulfilled \<lparr>sv_store = store_C, sv_products = value_of None mixed_network ''c''\<rparr>,
       Fulfilled \<lparr>sv_store = store_B, sv_products = value_of None mixed_network ''b''\<rparr>,
       Fulfilled \<lparr>sv_store = store_A, sv_products = value_of None mixed_network ''a''\<rparr>]"
    by (simp add: settledResults_value store_A_def store_B_def store_C_def)
  then show ?thesis
    using storeSpecials_follow_input_order [of None mixed_network "[store_C, store_B, store_A]"]
    by (simp add: v storeSpecials_aggregate)
qed

section \<open>Batches\<close>

lemma specials_key_inject [simp]:
  "(''dutchie:specials:'' @ a = ''dutchie:specials:'' @ b) = (a = b)"
  by simp

lemma issued_put:
  assumes "snd (fetchStoreSpecials kv net storeId storeName) = Some w"
  shows "\<exists>sp. w = Put (''dutchie:specials:'' @ storeId) sp CACHE_TTL_SECONDS
            \<and> value_of kv net storeId = sp"
  using assms
  by (auto simp: fetchStoreSpecials_alt value_of_def split: option.splits if_splits)

lemma cache_lookup_commit:
  "cache_lookup (kv_commit (Put key v ttl) kv) key' =
     (if key' = key \<and> cache_lookup (kv_commit (Put key v ttl) kv) key \<noteq> cache_lookup kv key
      then Some v else cache_lookup kv key')"
  by (auto simp: cache_lookup_def kv_commit_def kv_put_def kv_get_def
      split: option.splits sum.splits)

lemma same_view_refl: "same_view net kv kv"
  by (simp add: same_view_def)

lemma same_view_trans: "same_view net a b \<Longrightarrow> same_view net b c \<Longrightarrow> same_view net a c"
  by (simp add: same_view_def)

lemma commit_keeps_view:
  assumes view: "same_view net kvS kvC"
    and put: "snd (fetchStoreSpecials kvS net storeId storeName) = Some w"
  shows "same_view net kvS (kv_commit w kvC)"
proof -
  from put obtain sp where w: "w = Put (''dutchie:specials:'' @ storeId) sp CACHE_TTL_SECONDS"
    and sp: "value_of kvS net storeId = sp"
    using issued_put by blast
  have "value_of (kv_commit w kvC) net i = value_of kvS net i" for i
  proof (cases "i = storeId \<and> cache_lookup (kv_commit w kvC) (''dutchie:specials:'' @ storeId)
      \<noteq> cache_lookup kvC (''dutchie:specials:'' @ storeId)")
    case True
    then have "cache_lookup (kv_commit w kvC) (''dutchie:specials:'' @ i) = Some sp"
      unfolding w by (subst cache_lookup_commit) simp
    then show ?thesis
      using True sp by (simp add: value_of_def)
  next
    case False
    then have "cache_lookup (kv_commit w kvC) (''dutchie:specials:'' @ i)
        = cache_lookup kvC (''dutchie:specials:'' @ i)"
      unfolding w by (subst cache_lookup_commit) auto
    then have "value_of (kv_commit w kvC) net i = value_of kvC net i"
      by (simp add: value_of_def)
    with view show ?thesis by (simp add: same_view_def)
  qed
  then show ?thesis by (simp add: same_view_def)
qed

lemma commit_all_keeps_view:
  assumes "same_view net kvS kvC"
    and "\<forall>w \<in> set ws. \<exists>storeId storeName. snd (fetchStoreSpecials kvS net storeId storeName) = Some w"
  shows "same_view net kvS (kv_commit_all ws kvC)"
  using assms
proof (induction ws arbitrary: kvC)
  case Nil
  then show ?case by (simp add: kv_commit_all_def)
next
  case (Cons w ws)
  from Cons.prems obtain storeId storeName
    where "snd (fetchStoreSpecials kvS net storeId storeName) = Some w"
    by auto
  with Cons.prems(1) have "same_view net kvS (kv_commit w kvC)"
    by (rule commit_keeps_view)
  with Cons.IH [of "kv_commit w kvC"] Cons.prems(2) show ?case
    by (simp add: kv_commit_all_def)
qed

lemma put_of_some_task:
  "w \<in> set (List.map_filter snd (map f xs)) \<Longrightarrow> \<exists>x. snd (f x) = Some w"
proof (induction xs)
  case Nil
  then show ?case by simp
next
  case (Cons x xs)
  show ?case
  proof (cases "snd (f x) = Some w")
    case True
    then show ?thesis by (rule exI)
  next
    case False
    with Cons.prems have "w \<in> set (List.map_filter snd (map f xs))"
      by (simp split: option.splits)
    then show ?thesis by (rule Cons.IH)
  qed
qed

lemma puts_of_fan_out:
  "\<forall>w \<in> set (snd (fetchMultipleStoreSpecials kv net stores)).
      \<exists>storeId storeName. snd (fetchStoreSpecials kv net storeId storeName) = Some w"
proof
  fix w
  assume "w \<in> set (snd (fetchMultipleStoreSpecials kv net stores))"
  then have "w \<in> set (List.map_filter snd
      (map (\<lambda>store. fetchStoreSpecials kv net (store_id store) (store_name store)) stores))"
    by (simp add: fetchMultipleStoreSpecials_def storeTasks_def Let_def)
  then have "\<exists>s::store. snd (fetchStoreSpecials kv net (store_id s) (store_name s)) = Some w"
    by (rule put_of_some_task)
  then obtain s :: store where s: "snd (fetchStoreSpecials kv net (store_id s) (store_name s)) = Some w" ..
  show "\<exists>storeId storeName. snd (fetchStoreSpecials kv net storeId storeName) = Some w"
    by (rule exI, rule exI, rule s)
qed

lemma fan_out_keeps_view:
  assumes "same_view net kv0 kv"
  shows "same_view net kv0 (kv_commit_all (snd (fetchMultipleStoreSpecials kv net stores)) kv)"
proof -
  have "same_view net kv (kv_commit_all (snd (fetchMultipleStoreSpecials kv net stores)) kv)"
    using same_view_refl puts_of_fan_out by (rule commit_all_keeps_view)
  with assms show ?thesis by (rule same_view_trans)
qed

lemma aggregate_same_view:
  assumes "same_view net kv0 kv"
  shows "fst (fetchMultipleStoreSpecials kv net stores) = fst (fetchMultipleStoreSpecials kv0 net stores)"
  using assms by (simp add: fst_fetchMultipleStoreSpecials settledResults_value same_view_def)

lemma processResults_init:
  "length stores = length results \<Longrightarrow>
   processResults stores results 0 init_result =
     \<lparr>storeSpecials = concat (map specials_of (zip stores results)),
      totalSpecials = sum_list (map specialCount (concat (map specials_of (zip stores results)))),
      errors = concat (map errors_of (zip stores results))\<rparr>"
  by (rule aggregate_result.equality)
    (simp_all add: processResults_storeSpecials processResults_totalSpecials
      processResults_errors processResults_more init_result_def)

lemma aggregate_append:
  "fst (fetchMultipleStoreSpecials kv net (xs @ ys)) =
     combine (fst (fetchMultipleStoreSpecials kv net xs)) (fst (fetchMultipleStoreSpecials kv net ys))"
  by (simp add: fst_fetchMultipleStoreSpecials processResults_init settledResults_value
      combine_def zip_map2)

lemma aggregate_Nil: "fst (fetchMultipleStoreSpecials kv net []) = init_result"
  by (simp add: fst_fetchMultipleStoreSpecials processResults_init settledResults_value)
    (simp add: init_result_def)

lemma combine_assoc: "combine (combine a b) c = combine a (combine b c)"
  by (simp add: combine_def)

lemma combine_init: "combine a init_result = a"
  by (simp add: combine_def init_result_def)

lemma init_combine: "combine init_result a = a"
  by (simp add: combine_def init_result_def)

lemma batchLoop_result:
  assumes "0 < batchSize" and "same_view net kv0 kv"
  shows "\<exists>kv'. batchLoop net stores batchSize i kv acc =
           Some (combine acc (fst (fetchMultipleStoreSpecials kv0 net (drop i stores))), kv')"
  using assms(2)
proof (induction "length stores - i" arbitrary: i kv acc rule: less_induct)
  case less
  show ?case
  proof (cases "i < length stores")
    case False
    then show ?thesis
      by (subst batchLoop.simps) (simp add: aggregate_Nil combine_init)
  next
    case True
    let ?batch = "take batchSize (drop i stores)"
    let ?r = "fetchMultipleStoreSpecials kv net ?batch"
    let ?kv = "kv_commit_all (snd ?r) kv"
    let ?acc = "combine acc (fst ?r)"
    have view: "same_view net kv0 ?kv"
      using less.prems by (rule fan_out_keeps_view)
    have "length stores - (i + batchSize) < length stores - i"
      using True assms(1) by simp
    then obtain kv' where rest: "batchLoop net stores batchSize (i + batchSize) ?kv ?acc =
        Some (combine ?acc (fst (fetchMultipleStoreSpecials kv0 net (drop (i + batchSize) stores))), kv')"
      using less.hyps [OF _ view] by blast
    have "?batch @ drop batchSize (drop i stores) = drop i stores"
      by (rule append_take_drop_id)
    then have split: "drop i stores = ?batch @ drop (i + batchSize) stores"
      by (simp add: add.commute)
    have "fst ?r = fst (fetchMultipleStoreSpecials kv0 net ?batch)"
      using less.prems by (rule aggregate_same_view)
    then have "combine ?acc (fst (fetchMultipleStoreSpecials kv0 net (drop (i + batchSize) stores)))
        = combine acc (fst (fetchMultipleStoreSpecials kv0 net (drop i stores)))"
      by (subst split) (simp add: aggregate_append combine_assoc)
    with rest have "batchLoop net stores batchSize (i + batchSize) ?kv ?acc =
        Some (combine acc (fst (fetchMultipleStoreSpecials kv0 net (drop i stores))), kv')"
      by simp
    moreover have "batchLoop net stores batchSize i kv acc =
        batchLoop net stores batchSize (i + batchSize) ?kv ?acc"
      using True by (subst batchLoop.simps) (simp add: Let_def combine_def)
    ultimately show ?thesis by simp
  qed
qed


text \<open>With the batch size 0 and a non-empty input the loop never returns.\<close>

lemma batchLoop_returns_only_if:
  assumes "batchLoop net stores batchSize i kv acc = Some y"
  shows "batchSize \<noteq> 0 \<or> \<not> i < length stores"
proof (rule batchLoop.raw_induct
    [where P = "\<lambda>net stores batchSize i kv acc y. batchSize \<noteq> 0 \<or> \<not> i < length stores",
      OF _ assms])
  fix loop :: "network \<Rightarrow> store list \<Rightarrow> nat \<Rightarrow> nat \<Rightarrow> product list kv_namespace option \<Rightarrow>
       aggregate_result \<Rightarrow> (aggregate_result \<times> product list kv_namespace option) option"
  fix net stores batchSize i kv acc y
  assume IH: "\<And>net stores batchSize i kv acc y.
      loop net stores batchSize i kv acc = Some y \<Longrightarrow> batchSize \<noteq> 0 \<or> \<not> i < length stores"
  assume step: "(if i < length stores
      then let batch = take batchSize (drop i stores);
               r = fetchMultipleStoreSpecials kv net batch
           in loop net stores batchSize (i + batchSize)
               (kv_commit_all (snd r) kv)
               (acc\<lparr>storeSpecials := storeSpecials acc @ storeSpecials (fst r),
                    totalSpecials := totalSpecials acc + totalSpecials (fst r),
                    errors := errors acc @ errors (fst r)\<rparr>)
      else Some (acc, kv)) = Some y"
  show "batchSize \<noteq> 0 \<or> \<not> i < length stores"
  proof (cases "i < length stores \<and> batchSize = 0")
    case True
    with step obtain kv' acc' where "loop net stores 0 i kv' acc' = Some y"
      by (auto simp: Let_def)
    then have "(0::nat) \<noteq> 0 \<or> \<not> i < length stores"
      by (rule IH)
    with True show ?thesis by simp
  next
    case False
    then show ?thesis by auto
  qed
qed

lemma batch_size_zero_never_returns:
  assumes "stores \<noteq> []"
  shows "fetchStoreSpecialsInBatches kv net stores 0 = None"
proof (cases "fetchStoreSpecialsInBatches kv net stores 0")
  case None
  then show ?thesis .
next
  case (Some y)
  then have "(0::nat) \<noteq> 0 \<or> \<not> 0 < length stores"
    unfolding fetchStoreSpecialsInBatches_def by (rule batchLoop_returns_only_if)
  with assms show ?thesis by simp
qed

text \<open>
  Claim C4: for every store sequence, every positive batch size and every cache, the batched
  variant returns, and its \<open>storeSpecials\<close>, \<open>totalSpecials\<close> and \<open>errors\<close> are those of a single
  fan-out over the whole sequence on the same cache and the same upstream; in particular for a
  sequence of 25 stores and the batch size 10.
\<close>

theorem batches_agree_with_single_fan_out:
  assumes "0 < batchSize"
  shows "\<exists>r kv'. fetchStoreSpecialsInBatches kv net stores batchSize = Some (r, kv')
           \<and> storeSpecials r = storeSpecials (fst (fetchMultipleStoreSpecials kv net stores))
           \<and> totalSpecials r = totalSpecials (fst (fetchMultipleStoreSpecials kv net stores))
           \<and> errors r = errors (fst (fetchMultipleStoreSpecials kv net stores))"
proof -
  obtain kv' where "batchLoop net stores batchSize 0 kv init_result =
      Some (combine init_result (fst (fetchMultipleStoreSpecials kv net (drop 0 stores))), kv')"
    using batchLoop_result [OF assms same_view_refl] by blast
  then show ?thesis
    by (simp add: fetchStoreSpecialsInBatches_def init_result_def [symmetric] init_combine)
qed

theorem batches_agree_with_single_fan_out_witness:
  "(0::nat) < 10 \<and> length stores25 = 25
   \<and> (\<exists>r kv'. fetchStoreSpecialsInBatches (Some empty_cache) scenario_network stores25 10
                 = Some (r, kv')
        \<and> storeSpecials r =
            storeSpecials (fst (fetchMultipleStoreSpecials (Some empty_cache) scenario_network stores25))
        \<and> totalSpecials r =
            totalSpecials (fst (fetchMultipleStoreSpecials (Some empty_cache) scenario_network stores25))
        \<and> errors r =
            errors (fst (fetchMultipleStoreSpecials (Some empty_cache) scenario_network stores25)))"
proof -
  have pos: "(0::nat) < 10" by simp
  have "length stores25 = 25" by (simp add: stores25_def)
  with pos batches_agree_with_single_fan_out
    [OF pos, of "Some empty_cache" scenario_network stores25]
  show ?thesis by blast
qed

section \<open>Discount percentage\<close>

lemma of_int_bitlen_bounds:
  assumes "0 < a"
  shows "(2::rat) powi (bitlen a - 1) \<le> of_int a" and "of_int a < (2::rat) powi bitlen a"
proof -
  have pos: "1 \<le> bitlen a"
    using assms by (simp add: bitlen_alt_def)
  have lo: "2 ^ nat (bitlen a - 1) \<le> a" and hi: "a < 2 ^ nat (bitlen a)"
    using bitlen_bounds [OF assms] by simp_all
  have "(of_int (2 ^ nat (bitlen a - 1)) :: rat) \<le> of_int a"
    using lo by (simp only: of_int_le_iff)
  then show "(2::rat) powi (bitlen a - 1) \<le> of_int a"
    using pos by (simp add: power_int_def)
  have "(of_int a :: rat) < of_int (2 ^ nat (bitlen a))"
    using hi by (simp only: of_int_less_iff)
  then show "of_int a < (2::rat) powi bitlen a"
    using pos by (simp add: power_int_def)
qed

lemma ilog2_bounds:
  assumes "0 < x"
  shows "2 powi ilog2 x \<le> x" and "x < 2 powi (ilog2 x + 1)"
proof -
  obtain a b where q: "quotient_of x = (a, b)"
    by (cases "quotient_of x")
  have b: "0 < b"
    using q by (rule quotient_of_denom_pos)
  have x: "x = of_int a / of_int b"
    using q by (rule quotient_of_div)
  have a: "0 < a"
    using assms b unfolding x by (simp add: zero_less_divide_iff)
  let ?k = "bitlen a - bitlen b"
  have "x < 2 powi bitlen a / 2 powi (bitlen b - 1)"
    unfolding x using a b of_int_bitlen_bounds [OF a] of_int_bitlen_bounds [OF b]
    by (intro frac_less) simp_all
  moreover have "(2::rat) powi (bitlen a - (bitlen b - 1)) = 2 powi bitlen a / 2 powi (bitlen b - 1)"
    by (rule power_int_diff) simp
  moreover have "bitlen a - (bitlen b - 1) = ?k + 1"
    by simp
  ultimately have upper: "x < 2 powi (?k + 1)"
    by simp
  have "2 powi (bitlen a - 1) / 2 powi bitlen b < x"
    unfolding x using a b of_int_bitlen_bounds [OF a] of_int_bitlen_bounds [OF b]
    by (intro frac_less2) simp_all
  moreover have "(2::rat) powi (bitlen a - 1 - bitlen b) = 2 powi (bitlen a - 1) / 2 powi bitlen b"
    by (rule power_int_diff) simp
  moreover have "bitlen a - 1 - bitlen b = ?k - 1"
    by simp
  ultimately have lower: "2 powi (?k - 1) < x"
    by simp
  have k: "ilog2 x = (if 2 powi ?k \<le> x then ?k else ?k - 1)"
    by (simp add: ilog2_def q Let_def)
  show "2 powi ilog2 x \<le> x"
    using lower by (simp add: k)
  show "x < 2 powi (ilog2 x + 1)"
    using upper by (simp add: k)
qed

lemma ilog2_mono:
  assumes "0 < x" "x \<le> y"
  shows "ilog2 x \<le> ilog2 y"
proof -
  have "(2::rat) powi ilog2 x \<le> x"
    using assms(1) by (rule ilog2_bounds)
  also have "x \<le> y" by fact
  also have "y < 2 powi (ilog2 y + 1)"
    using assms by (intro ilog2_bounds) simp
  finally have "(2::rat) powi ilog2 x < 2 powi (ilog2 y + 1)" .
  then have "\<not> (2::rat) powi (ilog2 y + 1) \<le> 2 powi ilog2 x"
    by simp
  then have "\<not> ilog2 y + 1 \<le> ilog2 x"
    using power_int_increasing [of "ilog2 y + 1" "ilog2 x" "2::rat"] by auto
  then show ?thesis by simp
qed

lemma round_half_even_cases:
  "round_half_even x = \<lfloor>x\<rfloor> \<or> round_half_even x = \<lfloor>x\<rfloor> + 1"
  by (simp add: round_half_even_def Let_def)

lemma round_half_even_of_int [simp]: "round_half_even (of_int n) = n"
  by (simp add: round_half_even_def Let_def)

lemma round_half_even_le:
  assumes "x \<le> of_int N"
  shows "round_half_even x \<le> N"
proof (cases "x = of_int N")
  case True
  then show ?thesis by simp
next
  case False
  with assms have "x < of_int N" by simp
  then have "\<lfloor>x\<rfloor> < N" by (simp add: floor_less_iff)
  then show ?thesis
    using round_half_even_cases [of x] by auto
qed

lemma round_half_even_nonneg:
  assumes "0 \<le> x"
  shows "0 \<le> round_half_even x"
proof -
  have "0 \<le> \<lfloor>x\<rfloor>" using assms by simp
  then show ?thesis
    using round_half_even_cases [of x] by auto
qed

lemma ilog2_zero: "ilog2 0 = - 2"
  by (simp add: ilog2_def Let_def bitlen_alt_def)

lemma round_double_zero [simp]: "round_double 0 = Num 0"
  by (simp add: round_double_def round_to_ulp_def ilog2_zero)

lemma is_doubleD:
  assumes "is_double c"
  shows "round_to_ulp c = c" and "ilog2 \<bar>c\<bar> < 1024"
  using assms by (auto simp: is_double_def round_double_def Let_def split: if_splits)

lemma round_to_ulp_below:
  assumes x: "0 < x" "x \<le> c" and c: "round_to_ulp c = c"
  shows "0 \<le> round_to_ulp x" and "round_to_ulp x \<le> c"
proof -
  let ?ex = "ulp_exponent x" and ?ec = "ulp_exponent c"
  let ?nc = "round_half_even (c / 2 powi ?ec)"
  have cpos: "0 < c" using x by simp
  have "ilog2 \<bar>x\<bar> \<le> ilog2 \<bar>c\<bar>"
    using x by (intro ilog2_mono) simp_all
  then have le: "?ex \<le> ?ec"
    by (simp add: ulp_exponent_def)
  have c_eq: "c = of_int ?nc * 2 powi ?ec"
    using c cpos by (simp add: round_to_ulp_def)
  have "(2::rat) powi ?ec = 2 powi (?ec - ?ex) * 2 powi ?ex"
    by (simp flip: power_int_add)
  also have "(2::rat) powi (?ec - ?ex) = of_int (2 ^ nat (?ec - ?ex))"
    using le by (simp add: power_int_def)
  finally have split: "(2::rat) powi ?ec = of_int (2 ^ nat (?ec - ?ex)) * 2 powi ?ex" .
  have "c / 2 powi ?ex = of_int ?nc * of_int (2 ^ nat (?ec - ?ex))"
    by (subst c_eq, subst split) simp
  then have "x / 2 powi ?ex \<le> of_int (?nc * 2 ^ nat (?ec - ?ex))"
    using x(2) by (simp add: divide_le_cancel flip: of_int_mult)
        (metis divide_right_mono zero_le_power_int zero_le_numeral of_int_mult of_int_numeral of_int_power)
  then have "round_half_even (x / 2 powi ?ex) \<le> ?nc * 2 ^ nat (?ec - ?ex)"
    by (rule round_half_even_le)
  then have "(of_int (round_half_even (x / 2 powi ?ex)) :: rat) \<le> of_int (?nc * 2 ^ nat (?ec - ?ex))"
    by (simp only: of_int_le_iff)
  then have "of_int (round_half_even (x / 2 powi ?ex)) * 2 powi ?ex
      \<le> of_int (?nc * 2 ^ nat (?ec - ?ex)) * (2::rat) powi ?ex"
    by (rule mult_right_mono) simp
  also have "\<dots> = c"
    by (subst (2) c_eq, subst (2) split) simp
  finally show "round_to_ulp x \<le> c"
    using x(1) by (simp add: round_to_ulp_def)
  have "0 \<le> x / 2 powi ?ex"
    using x(1) by simp
  then have "0 \<le> round_half_even (x / 2 powi ?ex)"
    by (rule round_half_even_nonneg)
  then show "0 \<le> round_to_ulp x"
    using x(1) by (simp add: round_to_ulp_def)
qed

lemma round_double_below:
  assumes "0 \<le> x" "x \<le> c" "is_double c"
  shows "\<exists>y. round_double x = Num y \<and> 0 \<le> y \<and> y \<le> c"
proof (cases "x = 0")
  case True
  then show ?thesis using assms by simp
next
  case False
  with assms have x: "0 < x" by simp
  have c: "round_to_ulp c = c" and small: "ilog2 \<bar>c\<bar> < 1024"
    using assms(3) by (rule is_doubleD)+
  let ?y = "round_to_ulp x"
  have y: "0 \<le> ?y" "?y \<le> c"
    using x assms(2) c by (rule round_to_ulp_below)+
  have "ilog2 \<bar>?y\<bar> < 1024"
  proof (cases "?y = 0")
    case True
    then show ?thesis by (simp add: ilog2_zero)
  next
    case False
    with y have "0 < ?y" by simp
    then have "ilog2 ?y \<le> ilog2 c"
      using y(2) by (rule ilog2_mono)
    with small y x assms(2) show ?thesis by simp
  qed
  then have "round_double x = Num ?y"
    by (simp add: round_double_def Let_def)
  with y show ?thesis by simp
qed

lemma is_double_1: "is_double 1"
  by code_simp

lemma is_double_100: "is_double 100"
  by code_simp

lemma Math_round_bounds:
  assumes "0 \<le> p" "p \<le> 100"
  shows "\<exists>n. Math_round (Num p) = Num (of_int n) \<and> 0 \<le> n \<and> n \<le> 100"
proof -
  have "0 \<le> \<lfloor>p + 1 / 2\<rfloor>"
    using assms(1) by simp
  moreover have "\<lfloor>p + 1 / 2\<rfloor> \<le> 100"
    using assms(2) by (simp add: floor_le_iff)
  ultimately show ?thesis by simp
qed


lemma discount_40_17:
  "Math_round (js_mul (js_div (js_sub (Num 40) (Num 17)) (Num 40)) (Num 100)) = Num 57"
  by code_simp

lemma discount_1000_750:
  "Math_round (js_mul (js_div (js_sub (Num 1000) (Num 750)) (Num 1000)) (Num 100)) = Num 25"
  by code_simp

text \<open>
  Claim C7: for all numbers \<open>regular\<close> and \<open>special\<close>, \<open>calculateDiscount\<close> returns 0 when
  \<open>special >= regular\<close> or when either argument is falsy (zero or \<^verbatim>\<open>NaN\<close>), and otherwise
  returns \<^verbatim>\<open>Math.round(((regular - special) / regular) * 100)\<close>, the operations being those of
  JavaScript numbers; and \<open>calculateDiscount(1000, 750)\<close> is 25.
\<close>

theorem calculateDiscount_cases:
  "(js_ge special regular \<or> falsy regular \<or> falsy special \<longrightarrow>
      calculateDiscount regular special = Num 0)
   \<and> (\<not> (js_ge special regular \<or> falsy regular \<or> falsy special) \<longrightarrow>
      calculateDiscount regular special =
        Math_round (js_mul (js_div (js_sub regular special) regular) (Num 100)))
   \<and> calculateDiscount (Num 1000) (Num 750) = Num 25"
proof -
  have "calculateDiscount (Num 1000) (Num 750) = Num 25"
    using discount_1000_750 by (simp add: calculateDiscount_def)
  then show ?thesis
    by (auto simp: calculateDiscount_def)
qed

theorem calculateDiscount_cases_witness:
  "js_ge (Num 1000) (Num 750) \<and> calculateDiscount (Num 750) (Num 1000) = Num 0
   \<and> falsy (Num 0) \<and> calculateDiscount (Num 0) (Num 5) = Num 0
   \<and> \<not> (js_ge (Num 17) (Num 40) \<or> falsy (Num 40) \<or> falsy (Num 17))
   \<and> calculateDiscount (Num 40) (Num 17) = Num 57"
proof -
  have a: "js_ge (Num 1000) (Num 750)" and b: "falsy (Num 0)"
    and c: "\<not> (js_ge (Num 17) (Num 40) \<or> falsy (Num 40) \<or> falsy (Num 17))"
    by simp_all
  from a calculateDiscount_cases [where regular = "Num 750" and special = "Num 1000"]
  have 1: "calculateDiscount (Num 750) (Num 1000) = Num 0" by blast
  from b calculateDiscount_cases [where regular = "Num 0" and special = "Num 5"]
  have 2: "calculateDiscount (Num 0) (Num 5) = Num 0" by blast
  from c calculateDiscount_cases [where regular = "Num 40" and special = "Num 17"]
  have "calculateDiscount (Num 40) (Num 17) =
      Math_round (js_mul (js_div (js_sub (Num 40) (Num 17)) (Num 40)) (Num 100))"
    by blast
  then have 3: "calculateDiscount (Num 40) (Num 17) = Num 57"
    by (simp only: discount_40_17)
  from a b c 1 2 3 show ?thesis by blast
qed

text \<open>
  Claim C10, as stated, bounds the result for all non-negative numbers. \<^verbatim>\<open>Infinity\<close> is a
  non-negative number: with \<open>regular = Infinity\<close> and \<open>special = 5\<close> neither argument is falsy,
  \<open>5 >= Infinity\<close> is false, the quotient \<open>Infinity / Infinity\<close> is \<^verbatim>\<open>NaN\<close>, and so is the
  result.
\<close>

theorem infinite_regular_price_gives_NaN:
  "js_ge PosInf (Num 0) \<and> js_ge (Num 5) (Num 0) \<and> calculateDiscount PosInf (Num 5) = NaN"
  by (simp add: calculateDiscount_def)

text \<open>
  Claim C10, amended: for every finite non-negative number \<open>regular\<close> and every non-negative
  number \<open>special\<close> (finite or \<^verbatim>\<open>Infinity\<close>), \<open>calculateDiscount\<close> returns an integer between 0
  and 100 inclusive.
\<close>

theorem calculateDiscount_percentage:
  assumes "is_double regular" "0 \<le> regular" "js_ge special (Num 0)"
  shows "\<exists>n. calculateDiscount (Num regular) special = Num (of_int n) \<and> 0 \<le> n \<and> n \<le> 100"
proof (cases special)
  case (Num s)
  with assms(3) have s0: "0 \<le> s" by simp
  show ?thesis
  proof (cases "regular = 0 \<or> s = 0 \<or> regular \<le> s")
    case True
    then have "calculateDiscount (Num regular) (Num s) = Num (of_int 0)"
      by (auto simp: calculateDiscount_def)
    then show ?thesis
      unfolding Num by (intro exI [of _ 0]) simp
  next
    case False
    then have r: "0 < regular" and s: "0 < s" "s < regular"
      using assms(2) s0 by auto
    obtain d where d: "round_double (regular - s) = Num d" "0 \<le> d" "d \<le> regular"
      using round_double_below [of "regular - s" regular] assms(1) s by auto
    have "0 \<le> d / regular" "d / regular \<le> 1"
      using d r by simp_all
    then obtain q where q: "round_double (d / regular) = Num q" "0 \<le> q" "q \<le> 1"
      using round_double_below [of "d / regular" 1] is_double_1 by auto
    have "0 \<le> q * 100" "q * 100 \<le> 100"
      using q by simp_all
    then obtain p where p: "round_double (q * 100) = Num p" "0 \<le> p" "p \<le> 100"
      using round_double_below [of "q * 100" 100] is_double_100 by auto
    have "calculateDiscount (Num regular) (Num s) = Math_round (Num p)"
      using False d q p r by (simp add: calculateDiscount_def)
    then show ?thesis
      unfolding Num using Math_round_bounds [OF p(2,3)] by simp
  qed
next
  case PosInf
  then have "calculateDiscount (Num regular) special = Num (of_int 0)"
    by (simp add: calculateDiscount_def)
  then show ?thesis by (intro exI [of _ 0]) simp
next
  case NegInf
  with assms(3) show ?thesis by simp
next
  case NaN
  with assms(3) show ?thesis by simp
qed

theorem calculateDiscount_percentage_witness:
  "is_double 40 \<and> (0::rat) \<le> 40 \<and> js_ge (Num 17) (Num 0)
   \<and> (\<exists>n. calculateDiscount (Num 40) (Num 17) = Num (of_int n) \<and> 0 \<le> n \<and> n \<le> 100)"
proof -
  have a: "is_double 40" by code_simp
  have b: "(0::rat) \<le> 40" and c: "js_ge (Num 17) (Num 0)" by simp_all
  from calculateDiscount_percentage [OF a b c] a b c show ?thesis by blast
qed

end
